theory Spec2Isabelle
  imports
    Main
    "HOL-Library.Sublist"
    "HOL-Library.Multiset"
    "HOL-Library.Char_ord"
    "HOL-Library.List_Lexorder"
    "HOL-Library.Word"
begin

section \<open>Go strings\<close>

text \<open>
  A Go string is a sequence of bytes; it is embedded as a \<^typ>\<open>string\<close>, a list of 8-bit
  characters. Go compares strings byte by byte, a proper prefix being smaller: that is the
  lexicographic order on lists over the order of characters by their byte value.
\<close>

text \<open>\<^verbatim>\<open>strings.Index(s, substr)\<close>: the offset of the first occurrence, \<open>-1\<close> when there is none.\<close>

fun strings_Index :: "string \<Rightarrow> string \<Rightarrow> int" where
  "strings_Index [] substr = (if substr = [] then 0 else - 1)"
| "strings_Index (c # cs) substr =
     (if prefix substr (c # cs) then 0
      else (let i = strings_Index cs substr in if i = - 1 then - 1 else i + 1))"

text \<open>\<^verbatim>\<open>strings.Contains(s, substr)\<close> is \<^verbatim>\<open>Index(s, substr) >= 0\<close>.\<close>

definition strings_Contains :: "string \<Rightarrow> string \<Rightarrow> bool" where
  "strings_Contains s substr = (strings_Index s substr \<ge> 0)"

text \<open>
  \<^verbatim>\<open>strings.Replace(s, old, new, 1)\<close>: the first occurrence of \<open>old\<close> replaced by \<open>new\<close>, the
  string itself when \<open>old\<close> does not occur. (An empty \<open>old\<close> matches at the start.)
\<close>

fun strings_Replace1 :: "string \<Rightarrow> string \<Rightarrow> string \<Rightarrow> string" where
  "strings_Replace1 [] old new = (if old = [] then new else [])"
| "strings_Replace1 (c # cs) old new =
     (if prefix old (c # cs) then new @ drop (length old) (c # cs)
      else c # strings_Replace1 cs old new)"

text \<open>
  \<^verbatim>\<open>strings.Split(s, sep)\<close> for a non-empty separator: the pieces between the occurrences
  of \<open>sep\<close>, found left to right. \<open>acc\<close> holds the current piece, reversed.
\<close>

function split_from :: "string \<Rightarrow> string \<Rightarrow> string \<Rightarrow> string list" where
  "split_from sep acc [] = [rev acc]"
| "split_from sep acc (c # cs) =
     (if sep \<noteq> [] \<and> prefix sep (c # cs)
      then rev acc # split_from sep [] (drop (length sep) (c # cs))
      else split_from sep (c # acc) cs)"
  by pat_completeness auto
termination
  by (relation "measure (\<lambda>(sep, acc, s). length s)") (auto simp: neq_Nil_conv)

definition strings_Split :: "string \<Rightarrow> string \<Rightarrow> string list" where
  "strings_Split s sep = split_from sep [] s"

section \<open>Identity normalisation\<close>

text \<open>
  \<^verbatim>\<open>normalizeArn\<close>: the first \<^verbatim>\<open>arn:aws:sts::\<close> becomes \<^verbatim>\<open>arn:aws:iam::\<close>, the first
  \<^verbatim>\<open>:assumed-role/\<close> becomes \<^verbatim>\<open>:role/\<close>, and the result is cut at its first \<^verbatim>\<open>/\<close>.
\<close>

definition normalizeArn :: "string \<Rightarrow> string" where
  "normalizeArn raw =
     (let arn = strings_Replace1 raw ''arn:aws:sts::'' ''arn:aws:iam::'';
          arn = strings_Replace1 arn '':assumed-role/'' '':role/'';
          idx = strings_Index arn ''/''
      in if idx \<noteq> - 1 then take (nat idx) arn else arn)"

section \<open>Log records and the aggregation\<close>

text \<open>
  A decoded JSON value, as \<^verbatim>\<open>encoding/json\<close> stores it in an \<^verbatim>\<open>interface{}\<close>. A number is
  kept as its literal; only the string case is ever inspected.
\<close>

datatype json =
    JNull
  | JBool bool
  | JNumber string
  | JString string
  | JArray "json list"
  | JObject "(string \<times> json) list"

text \<open>
  The fields \<^verbatim>\<open>process\<close> decodes from one record. An absent \<^verbatim>\<open>errorCode\<close> (or a JSON
  \<^verbatim>\<open>null\<close>) leaves the pointer \<^verbatim>\<open>nil\<close>: \<open>None\<close>. An absent string field is the empty
  string. \<^verbatim>\<open>requestParameters\<close> is a map from field names to values.
\<close>

record event =
  EventTime :: string
  EventSource :: string
  EventName :: string
  ErrorCode :: "string option"
  UserIdentity_Arn :: string
  RequestParameters :: "string \<rightharpoonup> json"

text \<open>The two shared results: \<^verbatim>\<open>actions map[string]string\<close> and \<^verbatim>\<open>secrets map[string]struct{}\<close>.\<close>

record results =
  actions :: "string \<rightharpoonup> string"
  secrets :: "string set"

text \<open>
  The body of the loop of \<^verbatim>\<open>process\<close> for one record that \<^verbatim>\<open>json.Unmarshal\<close> accepted:
  the filter on identity and error code, the update of the ledger under the lock, and the
  detection of a secret retrieval.
\<close>

definition process_event :: "string \<Rightarrow> event \<Rightarrow> results \<Rightarrow> results" where
  "process_event identity ev st =
     (let norm = normalizeArn (UserIdentity_Arn ev) in
      if norm \<noteq> identity \<or> ErrorCode ev \<noteq> None then st
      else
        let action = hd (strings_Split (EventSource ev) ''.'') @ '':'' @ EventName ev;
            st = (case actions st action of
                    None \<Rightarrow> st\<lparr>actions := (actions st)(action \<mapsto> EventTime ev)\<rparr>
                  | Some prev \<Rightarrow>
                      if EventTime ev > prev
                      then st\<lparr>actions := (actions st)(action \<mapsto> EventTime ev)\<rparr>
                      else st)
        in if strings_Contains (EventSource ev) ''secretsmanager''
              \<and> EventName ev = ''GetSecretValue''
           then (case RequestParameters ev ''secretId'' of
                   Some (JString sid) \<Rightarrow> st\<lparr>secrets := insert sid (secrets st)\<rparr>
                 | _ \<Rightarrow> st)
           else st)"

text \<open>
  The calls \<^verbatim>\<open>process\<close> makes outside the program: fetching an object, opening the gzip
  stream, decoding the top-level document and decoding one record. Each either fails
  (\<open>None\<close>) or gives its result.
\<close>

record env =
  GetObject :: "string \<Rightarrow> string \<Rightarrow> string option"
  gzip_NewReader :: "string \<Rightarrow> string option"
  json_Decode :: "string \<Rightarrow> string list option"
  json_Unmarshal :: "string \<Rightarrow> event option"

definition process_raw :: "env \<Rightarrow> string \<Rightarrow> string \<Rightarrow> results \<Rightarrow> results" where
  "process_raw E identity raw st =
     (case json_Unmarshal E raw of
        None \<Rightarrow> st
      | Some ev \<Rightarrow> process_event identity ev st)"

definition process :: "env \<Rightarrow> string \<Rightarrow> string \<Rightarrow> string \<Rightarrow> results \<Rightarrow> results" where
  "process E bucket key identity st =
     (case GetObject E bucket key of
        None \<Rightarrow> st
      | Some body \<Rightarrow>
          (case gzip_NewReader E body of
             None \<Rightarrow> st
           | Some gz \<Rightarrow>
               (case json_Decode E gz of
                  None \<Rightarrow> st
                | Some records \<Rightarrow> fold (process_raw E identity) records st)))"

text \<open>
  The worker loop of \<^verbatim>\<open>run\<close>: every key taken from the job queue is processed once and
  the 64-bit counter \<^verbatim>\<open>processed\<close> is incremented, whatever \<^verbatim>\<open>process\<close> did.
\<close>

record run_state =
  agg :: results
  processed :: "64 word"

definition worker_body :: "env \<Rightarrow> string \<Rightarrow> string \<Rightarrow> string \<Rightarrow> run_state \<Rightarrow> run_state" where
  "worker_body E bucket identity key rs =
     rs\<lparr>agg := process E bucket key identity (agg rs), processed := processed rs + 1\<rparr>"

definition process_jobs :: "env \<Rightarrow> string \<Rightarrow> string \<Rightarrow> string list \<Rightarrow> run_state \<Rightarrow> run_state" where
  "process_jobs E bucket identity keys rs = fold (worker_body E bucket identity) keys rs"

text \<open>The records an object contributes: none when a stage before the loop fails.\<close>

definition object_events :: "env \<Rightarrow> string \<Rightarrow> string \<Rightarrow> event list" where
  "object_events E bucket key =
     (case GetObject E bucket key of
        None \<Rightarrow> []
      | Some body \<Rightarrow>
          (case gzip_NewReader E body of
             None \<Rightarrow> []
           | Some gz \<Rightarrow>
               (case json_Decode E gz of
                  None \<Rightarrow> []
                | Some records \<Rightarrow> List.map_filter (json_Unmarshal E) records)))"

text \<open>The ledger key of a record, \<^verbatim>\<open>strings.Split(ev.EventSource, ".")[0] + ":" + ev.EventName\<close>.\<close>

definition operation_key :: "event \<Rightarrow> string" where
  "operation_key ev = hd (strings_Split (EventSource ev) ''.'') @ '':'' @ EventName ev"

text \<open>A record passes the filter of \<^verbatim>\<open>process\<close> when neither disjunct of its guard holds.\<close>

definition passes :: "string \<Rightarrow> event \<Rightarrow> bool" where
  "passes identity ev = (normalizeArn (UserIdentity_Arn ev) = identity \<and> ErrorCode ev = None)"

text \<open>The secret identifier the last test of the loop body extracts, if any.\<close>

definition secret_id :: "event \<Rightarrow> string option" where
  "secret_id ev =
     (if strings_Contains (EventSource ev) ''secretsmanager'' \<and> EventName ev = ''GetSecretValue''
      then (case RequestParameters ev ''secretId'' of Some (JString sid) \<Rightarrow> Some sid | _ \<Rightarrow> None)
      else None)"

text \<open>
  The loop body holds the lock twice, once around the ledger update and once around the
  insertion of the secret, so that the sections of different workers may interleave. The two
  sections of a record that passes the filter, each as a step of its own:
\<close>

definition ledger_update :: "string \<Rightarrow> event \<Rightarrow> results \<Rightarrow> results" where
  "ledger_update identity ev st =
     (if passes identity ev then
        (case actions st (operation_key ev) of
           None \<Rightarrow> st\<lparr>actions := (actions st)(operation_key ev \<mapsto> EventTime ev)\<rparr>
         | Some prev \<Rightarrow>
             if EventTime ev > prev
             then st\<lparr>actions := (actions st)(operation_key ev \<mapsto> EventTime ev)\<rparr>
             else st)
      else st)"

definition secret_insert :: "string \<Rightarrow> event \<Rightarrow> results \<Rightarrow> results" where
  "secret_insert identity ev st =
     (if passes identity ev then
        (case secret_id ev of
           None \<Rightarrow> st
         | Some sid \<Rightarrow> st\<lparr>secrets := insert sid (secrets st)\<rparr>)
      else st)"

text \<open>A locked section of some worker, and the two sections a record gives rise to.\<close>

datatype locked = LedgerUpdate event | SecretInsert event

fun run_locked :: "string \<Rightarrow> locked \<Rightarrow> results \<Rightarrow> results" where
  "run_locked identity (LedgerUpdate ev) st = ledger_update identity ev st"
| "run_locked identity (SecretInsert ev) st = secret_insert identity ev st"

definition locked_sections :: "event \<Rightarrow> locked list" where
  "locked_sections ev = [LedgerUpdate ev, SecretInsert ev]"

section \<open>Listing the archive\<close>

text \<open>
  One call of \<^verbatim>\<open>NextPage\<close> either fails (\<open>None\<close>) or gives the keys of a page. What the
  paginator of a prefix answers, call after call until \<^verbatim>\<open>HasMorePages\<close> is false, is a list
  of pages; the object store is a function from prefixes to such lists.
\<close>

type_synonym page = "string list option"

text \<open>\<^verbatim>\<open>fail(err)\<close> prints the error and exits: the only failure a caller can see.\<close>

datatype failure = Fatal

text \<open>\<^verbatim>\<open>listKeys\<close>, the sequential listing: any page error is fatal.\<close>

fun listKeys_from :: "page list \<Rightarrow> string list \<Rightarrow> failure + string list" where
  "listKeys_from [] all = Inr all"
| "listKeys_from (None # rest) all = Inl Fatal"
| "listKeys_from (Some contents # rest) all = listKeys_from rest (all @ contents)"

text \<open>
  The parallel listing of \<^verbatim>\<open>run\<close>: one goroutine per prefix. A goroutine is at the head of
  its pagination loop with the pages still to come, or has returned. A step of goroutine
  \<open>i\<close> is one turn of its loop: leaving the loop when no page is left (and counting the
  shard), returning on a page error, or appending the page to \<^verbatim>\<open>allKeys\<close> under the lock.
  A schedule is the order in which the goroutines take their steps; the listing is over
  when all of them have returned.
\<close>

datatype lister = Listing "page list" | Finished

record listing_state =
  listers :: "lister list"
  allKeys :: "string list"
  shardCount :: "64 word"

definition lister_step :: "nat \<Rightarrow> listing_state \<Rightarrow> listing_state" where
  "lister_step i s =
     (if i < length (listers s) then
        (case listers s ! i of
           Finished \<Rightarrow> s
         | Listing [] \<Rightarrow> s\<lparr>listers := (listers s)[i := Finished], shardCount := shardCount s + 1\<rparr>
         | Listing (None # rest) \<Rightarrow> s\<lparr>listers := (listers s)[i := Finished]\<rparr>
         | Listing (Some contents # rest) \<Rightarrow>
             s\<lparr>listers := (listers s)[i := Listing rest], allKeys := allKeys s @ contents\<rparr>)
      else s)"

definition list_shards :: "(string \<Rightarrow> page list) \<Rightarrow> string list \<Rightarrow> nat list \<Rightarrow> listing_state" where
  "list_shards pages_of prefs sched =
     fold lister_step sched
       \<lparr>listers = map (\<lambda>pref. Listing (pages_of pref)) prefs, allKeys = [], shardCount = 0\<rparr>"

text \<open>
  The parallel listing of \<^verbatim>\<open>listKeysParallel\<close>: \<^verbatim>\<open>shards\<close> workers take prefixes from a
  closed queue. A worker waits at the queue, is inside the pagination loop of a shard, or
  has returned; it returns when the queue is drained and also on a page error. The function
  returns what was collected once every worker has returned, so its result is read off a
  schedule that is long enough for that.
\<close>

datatype worker = Idle | Busy "page list" | Exited

record pool_state =
  jobs :: "string list"
  workers :: "worker list"
  all_keys :: "string list"

definition pool_step :: "(string \<Rightarrow> page list) \<Rightarrow> nat \<Rightarrow> pool_state \<Rightarrow> pool_state" where
  "pool_step pages_of i s =
     (if i < length (workers s) then
        (case workers s ! i of
           Exited \<Rightarrow> s
         | Idle \<Rightarrow>
             (case jobs s of
                [] \<Rightarrow> s\<lparr>workers := (workers s)[i := Exited]\<rparr>
              | shard # rest \<Rightarrow> s\<lparr>jobs := rest, workers := (workers s)[i := Busy (pages_of shard)]\<rparr>)
         | Busy [] \<Rightarrow> s\<lparr>workers := (workers s)[i := Idle]\<rparr>
         | Busy (None # rest) \<Rightarrow> s\<lparr>workers := (workers s)[i := Exited]\<rparr>
         | Busy (Some contents # rest) \<Rightarrow>
             s\<lparr>workers := (workers s)[i := Busy rest], all_keys := all_keys s @ contents\<rparr>)
      else s)"

definition pool_run :: "(string \<Rightarrow> page list) \<Rightarrow> string list \<Rightarrow> int \<Rightarrow> nat list \<Rightarrow> pool_state" where
  "pool_run pages_of prefs shards sched =
     fold (pool_step pages_of) sched
       \<lparr>jobs = prefs, workers = replicate (nat shards) Idle, all_keys = []\<rparr>"

definition listKeysParallel ::
  "string list option \<Rightarrow> (string \<Rightarrow> page list) \<Rightarrow> string \<Rightarrow> int \<Rightarrow> nat list \<Rightarrow> failure + string list" where
  "listKeysParallel common pages_of base shards sched =
     (case common of
        None \<Rightarrow> Inl Fatal
      | Some prefs \<Rightarrow>
          if prefs = [] then listKeys_from (pages_of base) []
          else Inr (all_keys (pool_run pages_of prefs shards sched)))"

text \<open>The keys of the pages of a shard that precede its first error.\<close>

fun collected :: "page list \<Rightarrow> string list" where
  "collected [] = []"
| "collected (None # rest) = []"
| "collected (Some contents # rest) = contents @ collected rest"

text \<open>An archive of two shards: listing the first fails at once, the second holds one key.\<close>

definition flaky_pages :: "string \<Rightarrow> page list" where
  "flaky_pages shard = (if shard = ''logs/a/'' then [None] else [Some [shard @ ''1.json.gz'']])"

text \<open>The keys a goroutine of \<^verbatim>\<open>run\<close> has still to append.\<close>

fun pending :: "lister \<Rightarrow> string multiset" where
  "pending Finished = {#}"
| "pending (Listing ps) = mset (collected ps)"

text \<open>The states the pool of one worker can reach on that archive.\<close>

definition starved :: "pool_state set" where
  "starved =
     {\<lparr>jobs = [''logs/a/'', ''logs/b/''], workers = [Idle], all_keys = []\<rparr>,
      \<lparr>jobs = [''logs/b/''], workers = [Busy [None]], all_keys = []\<rparr>,
      \<lparr>jobs = [''logs/b/''], workers = [Exited], all_keys = []\<rparr>}"

section \<open>Sample data\<close>

definition no_results :: results where
  "no_results = \<lparr>actions = Map.empty, secrets = {}\<rparr>"

definition alice :: string where
  "alice = ''arn:aws:iam::123456789012:user''"

definition describe_at :: "string \<Rightarrow> event" where
  "describe_at t =
     \<lparr>EventTime = t, EventSource = ''ec2.amazonaws.com'', EventName = ''DescribeInstances'',
      ErrorCode = None, UserIdentity_Arn = ''arn:aws:iam::123456789012:user/alice'',
      RequestParameters = Map.empty\<rparr>"

definition denied_at :: "string \<Rightarrow> event" where
  "denied_at t = (describe_at t)\<lparr>ErrorCode := Some ''AccessDenied''\<rparr>"

definition anonymous_at :: "string \<Rightarrow> event" where
  "anonymous_at t = (describe_at t)\<lparr>UserIdentity_Arn := []\<rparr>"

text \<open>
  An archive of three objects: \<open>a\<close> and \<open>b\<close> hold one record each, \<open>c\<close> is not a gzip
  stream.
\<close>

definition archive :: env where
  "archive =
     \<lparr>GetObject = (\<lambda>bucket key. if key \<in> {''a'', ''b'', ''c''} then Some key else None),
      gzip_NewReader = (\<lambda>body. if body = ''c'' then None else Some body),
      json_Decode = (\<lambda>gz. Some [gz]),
      json_Unmarshal = (\<lambda>raw.
         if raw = ''a'' then Some (describe_at ''2024-01-15T10:00:00Z'')
         else if raw = ''b'' then Some (describe_at ''2024-01-15T10:30:00Z'')
         else None)\<rparr>"

definition admin_session :: string where
  "admin_session = ''arn:aws:sts::123456789012:assumed-role/Admin/session1''"

definition get_secret_by :: "string \<Rightarrow> event" where
  "get_secret_by arn =
     \<lparr>EventTime = ''2024-01-15T11:00:00Z'', EventSource = ''secretsmanager.amazonaws.com'',
      EventName = ''GetSecretValue'', ErrorCode = None, UserIdentity_Arn = arn,
      RequestParameters = [''secretId'' \<mapsto> JString ''prod/db'']\<rparr>"

section \<open>Properties of the normalisation\<close>

lemma strings_Index_single:
  "strings_Index s [c] = (if c \<in> set s then int (length (takeWhile (\<lambda>x. x \<noteq> c) s)) else - 1)"
  by (induction s) (simp_all add: Let_def)

lemma takeWhile_absent: "c \<notin> set s \<Longrightarrow> takeWhile (\<lambda>x. x \<noteq> c) s = s"
  by (induction s) auto

lemma cut_at_separator:
  "(if strings_Index s [c] \<noteq> - 1 then take (nat (strings_Index s [c])) s else s)
     = takeWhile (\<lambda>x. x \<noteq> c) s"
proof (cases "c \<in> set s")
  case True
  then show ?thesis
    by (simp add: strings_Index_single takeWhile_eq_take [symmetric])
next
  case False
  then show ?thesis
    by (simp add: strings_Index_single takeWhile_absent)
qed

lemma normalizeArn_takeWhile:
  "normalizeArn raw =
     takeWhile (\<lambda>x. x \<noteq> CHR ''/'')
       (strings_Replace1 (strings_Replace1 raw ''arn:aws:sts::'' ''arn:aws:iam::'')
          '':assumed-role/'' '':role/'')"
  unfolding normalizeArn_def Let_def by (rule cut_at_separator)

lemma normalizeArn_no_separator: "CHR ''/'' \<notin> set (normalizeArn raw)"
  unfolding normalizeArn_takeWhile by (auto dest: set_takeWhileD)

lemma prefix_set_subset: "prefix xs ys \<Longrightarrow> set xs \<subseteq> set ys"
  by (auto simp add: prefix_def)

lemma strings_Replace1_absent:
  "c \<in> set old \<Longrightarrow> c \<notin> set s \<Longrightarrow> strings_Replace1 s old new = s"
proof (induction s)
  case Nil
  then show ?case by auto
next
  case (Cons a s)
  then have "\<not> prefix old (a # s)"
    using prefix_set_subset by blast
  with Cons show ?case by simp
qed

lemma strings_Replace1_set: "set (strings_Replace1 s old new) \<subseteq> set s \<union> set new"
proof (induction s)
  case Nil
  then show ?case by auto
next
  case (Cons c cs)
  have "set (drop (length old) (c # cs)) \<subseteq> set (c # cs)"
    by (rule set_drop_subset)
  with Cons show ?case by auto
qed

lemma strings_Index_ge: "strings_Index s sub \<ge> - 1"
  by (induction s) (simp_all add: Let_def)

lemma strings_Contains_Cons:
  "strings_Contains (c # cs) sub \<longleftrightarrow> prefix sub (c # cs) \<or> strings_Contains cs sub"
  using strings_Index_ge [of cs sub]
  by (simp add: strings_Contains_def Let_def)

lemma strings_Replace1_fixed:
  assumes "old \<noteq> new" "old \<noteq> []"
  shows "strings_Replace1 s old new = s \<longleftrightarrow> \<not> strings_Contains s old"
proof (induction s)
  case Nil
  then show ?case using assms by (simp add: strings_Contains_def)
next
  case (Cons c cs)
  show ?case
  proof (cases "prefix old (c # cs)")
    case True
    then obtain r where r: "c # cs = old @ r" by (auto simp add: prefix_def)
    have "strings_Replace1 (c # cs) old new = new @ drop (length old) (c # cs)"
      using True by simp
    moreover have "drop (length old) (c # cs) = r"
      by (simp add: r)
    ultimately have "strings_Replace1 (c # cs) old new = new @ r"
      by simp
    moreover have "new @ r \<noteq> old @ r" using assms by simp
    ultimately have "strings_Replace1 (c # cs) old new \<noteq> c # cs"
      using r by simp
    then show ?thesis using True by (simp add: strings_Contains_Cons)
  next
    case False
    then show ?thesis using Cons by (simp add: strings_Contains_Cons)
  qed
qed

lemma prefix_before_separator:
  "c \<notin> set old \<Longrightarrow> prefix old (a @ c # t) \<longleftrightarrow> prefix old a"
proof (induction a arbitrary: old)
  case Nil
  then show ?case by (cases old) auto
next
  case (Cons x xs)
  then show ?case by (cases old) auto
qed

lemma drop_append_le: "n \<le> length u \<Longrightarrow> drop n (u @ v) = drop n u @ v"
  by simp

lemma strings_Replace1_before_separator:
  assumes "c \<notin> set old" and "old \<noteq> []"
  shows "\<exists>t'. strings_Replace1 (a @ c # t) old new = strings_Replace1 a old new @ c # t'"
proof (induction a)
  case Nil
  have "\<not> prefix old (c # t)"
    using assms by (cases old) auto
  then show ?case using assms by simp
next
  case (Cons x xs)
  show ?case
  proof (cases "prefix old (x # xs)")
    case True
    then have "length old \<le> length (x # xs)"
      by (rule prefix_length_le)
    then have "drop (length old) ((x # xs) @ c # t) = drop (length old) (x # xs) @ c # t"
      by (rule drop_append_le)
    moreover have "prefix old ((x # xs) @ c # t)"
      using True prefix_before_separator [OF assms(1), of "x # xs" t] by blast
    ultimately show ?thesis using True by simp
  next
    case False
    then have "\<not> prefix old ((x # xs) @ c # t)"
      using prefix_before_separator [OF assms(1), of "x # xs" t] by blast
    then show ?thesis using False Cons by auto
  qed
qed

lemma prefix_with_separator:
  "c \<notin> set q \<Longrightarrow> c \<notin> set b \<Longrightarrow> prefix (q @ [c]) (b @ c # t) \<longleftrightarrow> b = q"
proof (induction q arbitrary: b)
  case Nil
  then show ?case by (cases b) auto
next
  case (Cons z zs)
  then show ?case by (cases b) auto
qed

lemma strings_Replace1_skip:
  "\<not> prefix old (c # cs) \<Longrightarrow> strings_Replace1 (c # cs) old new = c # strings_Replace1 cs old new"
  by simp

lemma role_pattern_prefix:
  assumes "CHR ''/'' \<notin> set b"
  shows "prefix '':assumed-role/'' (b @ CHR ''/'' # t) \<longleftrightarrow> b = '':assumed-role''"
proof -
  have "prefix ('':assumed-role'' @ [CHR ''/'']) (b @ CHR ''/'' # t) \<longleftrightarrow> b = '':assumed-role''"
    by (rule prefix_with_separator) (use assms in simp_all)
  then show ?thesis by simp
qed

lemma cut_after_role_rewrite:
  assumes "CHR ''/'' \<notin> set b"
  shows "takeWhile (\<lambda>x. x \<noteq> CHR ''/'') (strings_Replace1 (b @ CHR ''/'' # t) '':assumed-role/'' '':role/'')
       = takeWhile (\<lambda>x. x \<noteq> CHR ''/'') (strings_Replace1 (b @ CHR ''/'' # t') '':assumed-role/'' '':role/'')"
  using assms
proof (induction b)
  case Nil
  then show ?case by simp
next
  case (Cons x xs)
  then have ns: "CHR ''/'' \<notin> set (x # xs)" and x: "x \<noteq> CHR ''/''" and nxs: "CHR ''/'' \<notin> set xs"
    by auto
  show ?case
  proof (cases "x # xs = '':assumed-role''")
    case True
    then have "x = CHR '':''" and "xs = ''assumed-role''" by simp_all
    then show ?thesis by simp
  next
    case False
    have "\<not> prefix '':assumed-role/'' (x # (xs @ CHR ''/'' # t))"
      using role_pattern_prefix [OF ns, of t] False unfolding append_Cons by blast
    then have e: "strings_Replace1 (x # (xs @ CHR ''/'' # t)) '':assumed-role/'' '':role/''
                 = x # strings_Replace1 (xs @ CHR ''/'' # t) '':assumed-role/'' '':role/''"
      by (rule strings_Replace1_skip)
    have "\<not> prefix '':assumed-role/'' (x # (xs @ CHR ''/'' # t'))"
      using role_pattern_prefix [OF ns, of t'] False unfolding append_Cons by blast
    then have e': "strings_Replace1 (x # (xs @ CHR ''/'' # t')) '':assumed-role/'' '':role/''
                 = x # strings_Replace1 (xs @ CHR ''/'' # t') '':assumed-role/'' '':role/''"
      by (rule strings_Replace1_skip)
    show ?thesis using x Cons.IH [OF nxs]
      by (simp add: e e' del: strings_Replace1.simps)
  qed
qed

lemma normalizeArn_ignores_tail:
  assumes "CHR ''/'' \<notin> set a"
  shows "normalizeArn (a @ CHR ''/'' # t) = normalizeArn (a @ CHR ''/'' # t')"
proof -
  let ?a' = "strings_Replace1 a ''arn:aws:sts::'' ''arn:aws:iam::''"
  have "set ?a' \<subseteq> set a \<union> set ''arn:aws:iam::''"
    by (rule strings_Replace1_set)
  then have na: "CHR ''/'' \<notin> set ?a'" using assms by auto
  obtain u where u: "strings_Replace1 (a @ CHR ''/'' # t) ''arn:aws:sts::'' ''arn:aws:iam::'' = ?a' @ CHR ''/'' # u"
    using strings_Replace1_before_separator [of "CHR ''/''" "''arn:aws:sts::''" a t "''arn:aws:iam::''"]
    by auto
  obtain u' where u': "strings_Replace1 (a @ CHR ''/'' # t') ''arn:aws:sts::'' ''arn:aws:iam::'' = ?a' @ CHR ''/'' # u'"
    using strings_Replace1_before_separator [of "CHR ''/''" "''arn:aws:sts::''" a t' "''arn:aws:iam::''"]
    by auto
  show ?thesis
    unfolding normalizeArn_takeWhile u u' by (rule cut_after_role_rewrite [OF na])
qed

text \<open>
  C2. On an identifier of the shape account, principal type, name, session, the cut at the
  first \<^verbatim>\<open>/\<close> removes the name together with the session: what is left ends with the
  principal type.
\<close>

theorem normalizeArn_drops_name:
  "normalizeArn ''arn:aws:iam::123456789012:user/alice/session1''
     = ''arn:aws:iam::123456789012:user''
   \<and> normalizeArn ''arn:aws:sts::123456789012:assumed-role/Admin/session1''
     = ''arn:aws:iam::123456789012:role''"
  by (simp add: normalizeArn_def)

text \<open>
  C5, as stated: normalising twice is not the same as normalising once when the identifier
  holds \<^verbatim>\<open>arn:aws:sts::\<close> twice, since each pass rewrites one occurrence only.
\<close>

theorem normalizeArn_not_idempotent:
  "normalizeArn (normalizeArn ''arn:aws:sts::arn:aws:sts::'')
     \<noteq> normalizeArn ''arn:aws:sts::arn:aws:sts::''"
  by (simp add: normalizeArn_def)

text \<open>
  C5, amended: normalising a normalised identifier returns it unchanged exactly when it no
  longer contains \<^verbatim>\<open>arn:aws:sts::\<close>.
\<close>

theorem normalizeArn_idempotent_iff:
  "normalizeArn (normalizeArn x) = normalizeArn x
     \<longleftrightarrow> \<not> strings_Contains (normalizeArn x) ''arn:aws:sts::''"
proof -
  let ?y = "normalizeArn x"
  let ?z = "strings_Replace1 ?y ''arn:aws:sts::'' ''arn:aws:iam::''"
  have ny: "CHR ''/'' \<notin> set ?y" by (rule normalizeArn_no_separator)
  have "set ?z \<subseteq> set ?y \<union> set ''arn:aws:iam::''"
    by (rule strings_Replace1_set)
  then have nz: "CHR ''/'' \<notin> set ?z" using ny by auto
  have "strings_Replace1 ?z '':assumed-role/'' '':role/'' = ?z"
    by (rule strings_Replace1_absent [OF _ nz]) simp
  then have "normalizeArn ?y = takeWhile (\<lambda>x. x \<noteq> CHR ''/'') ?z"
    by (simp add: normalizeArn_takeWhile [of ?y])
  also have "\<dots> = ?z" using nz by (rule takeWhile_absent)
  finally have "normalizeArn ?y = ?z" .
  then show ?thesis
    by (simp add: strings_Replace1_fixed)
qed

theorem normalizeArn_idempotent_iff_witness:
  "normalizeArn (normalizeArn admin_session) = normalizeArn admin_session"
proof -
  have "\<not> strings_Contains (normalizeArn admin_session) ''arn:aws:sts::''"
    by (simp add: normalizeArn_def admin_session_def strings_Contains_def)
  then show ?thesis
    using normalizeArn_idempotent_iff [of admin_session] by blast
qed

text \<open>
  C6. Two identifiers that agree up to and including a \<^verbatim>\<open>/\<close> and differ only in what
  follows it normalise to the same identifier.
\<close>

theorem session_suffix_ignored:
  "normalizeArn (p @ ''/'' @ s1) = normalizeArn (p @ ''/'' @ s2)"
proof (cases "CHR ''/'' \<in> set p")
  case False
  then show ?thesis using normalizeArn_ignores_tail [of p s1 s2] by simp
next
  case True
  then obtain a r where p: "p = a @ CHR ''/'' # r" and na: "CHR ''/'' \<notin> set a"
    by (auto dest: split_list_first)
  have "normalizeArn (a @ CHR ''/'' # (r @ ''/'' @ s1)) = normalizeArn (a @ CHR ''/'' # (r @ ''/'' @ s2))"
    by (rule normalizeArn_ignores_tail [OF na])
  then show ?thesis by (simp add: p)
qed

theorem session_suffix_ignored_witness:
  "normalizeArn (''arn:aws:sts::123456789012:assumed-role/Admin'' @ ''/'' @ ''session1'')
     = normalizeArn (''arn:aws:sts::123456789012:assumed-role/Admin'' @ ''/'' @ ''session2'')"
  by (rule session_suffix_ignored)

section \<open>Properties of the aggregation\<close>

lemma split_from_nonempty: "split_from sep acc s \<noteq> []"
  by (induction sep acc s rule: split_from.induct) auto

lemma strings_Split_nonempty: "strings_Split s sep \<noteq> []"
  by (simp add: strings_Split_def split_from_nonempty)

lemma normalizeArn_Nil: "normalizeArn [] = []"
  by (simp add: normalizeArn_def)

lemma actions_process_event:
  "actions (process_event identity ev st) =
    (if passes identity ev
        \<and> (case actions st (operation_key ev) of None \<Rightarrow> True | Some p \<Rightarrow> p < EventTime ev)
     then (actions st)(operation_key ev \<mapsto> EventTime ev) else actions st)"
  by (auto simp add: process_event_def passes_def operation_key_def Let_def
      split: option.splits json.splits)

lemma secrets_process_event:
  "secrets (process_event identity ev st) =
    (if passes identity ev
     then (case secret_id ev of None \<Rightarrow> secrets st | Some sid \<Rightarrow> insert sid (secrets st))
     else secrets st)"
  by (auto simp add: process_event_def passes_def secret_id_def Let_def
      split: option.splits json.splits)

lemma process_event_commute:
  "process_event identity a (process_event identity b st) =
   process_event identity b (process_event identity a st)"
proof (rule results.equality)
  show "actions (process_event identity a (process_event identity b st)) =
        actions (process_event identity b (process_event identity a st))"
    by (auto simp add: actions_process_event fun_upd_twist split: option.splits)
  show "secrets (process_event identity a (process_event identity b st)) =
        secrets (process_event identity b (process_event identity a st))"
    by (auto simp add: secrets_process_event split: option.splits)
qed simp

lemma fold_process_event_perm:
  assumes "mset evs = mset evs'"
  shows "fold (process_event identity) evs st = fold (process_event identity) evs' st"
proof -
  have "fold (process_event identity) evs = fold (process_event identity) evs'"
    by (rule fold_multiset_equiv [OF _ assms]) (simp add: fun_eq_iff process_event_commute)
  then show ?thesis by simp
qed

lemma fold_map_filter:
  "fold f (List.map_filter g xs) st =
   fold (\<lambda>x s. case g x of None \<Rightarrow> s | Some y \<Rightarrow> f y s) xs st"
  by (induction xs arbitrary: st) (auto split: option.splits)

lemma process_as_fold:
  "process E bucket key identity st =
   fold (process_event identity) (object_events E bucket key) st"
proof -
  have "process_raw E identity =
        (\<lambda>x s. case json_Unmarshal E x of None \<Rightarrow> s | Some y \<Rightarrow> process_event identity y s)"
    by (simp add: fun_eq_iff process_raw_def)
  then show ?thesis
    by (simp add: process_def object_events_def fold_map_filter split: option.splits)
qed

lemma fold_process_concat:
  "fold (\<lambda>key. process E bucket key identity) keys st =
   fold (process_event identity) (concat (map (object_events E bucket) keys)) st"
  by (induction keys arbitrary: st) (simp_all add: process_as_fold)

lemma agg_process_jobs:
  "agg (process_jobs E bucket identity keys rs) =
   fold (\<lambda>key. process E bucket key identity) keys (agg rs)"
  unfolding process_jobs_def
  by (induction keys arbitrary: rs) (simp_all add: worker_body_def)

lemma processed_process_jobs:
  "processed (process_jobs E bucket identity keys rs) = processed rs + of_nat (length keys)"
  unfolding process_jobs_def
  by (induction keys arbitrary: rs) (simp_all add: worker_body_def)

lemma sample_normalized:
  "normalizeArn ''arn:aws:iam::123456789012:user/alice'' = ''arn:aws:iam::123456789012:user''"
  by (simp add: normalizeArn_def)

lemma sample_key: "operation_key (describe_at t) = ''ec2:DescribeInstances''"
  by (simp add: operation_key_def describe_at_def strings_Split_def)

lemma sample_passes: "passes alice (describe_at t)"
  by (simp add: passes_def describe_at_def alice_def sample_normalized)

text \<open>
  The loop body is its two locked sections in sequence, and the sections of all records may
  run in any order without changing the results: the interleaving of the workers does not
  matter.
\<close>

lemma actions_ledger_update:
  "actions (ledger_update identity ev st) =
    (if passes identity ev
        \<and> (case actions st (operation_key ev) of None \<Rightarrow> True | Some p \<Rightarrow> p < EventTime ev)
     then (actions st)(operation_key ev \<mapsto> EventTime ev) else actions st)"
  by (simp add: ledger_update_def split: option.splits)

lemma secrets_ledger_update: "secrets (ledger_update identity ev st) = secrets st"
  by (simp add: ledger_update_def split: option.splits)

lemma actions_secret_insert: "actions (secret_insert identity ev st) = actions st"
  by (simp add: secret_insert_def split: option.splits)

lemma secrets_secret_insert:
  "secrets (secret_insert identity ev st) =
    (if passes identity ev
     then (case secret_id ev of None \<Rightarrow> secrets st | Some sid \<Rightarrow> insert sid (secrets st))
     else secrets st)"
  by (simp add: secret_insert_def split: option.splits)

lemma process_event_sections:
  "process_event identity ev st = secret_insert identity ev (ledger_update identity ev st)"
  by (rule results.equality)
    (simp_all add: actions_process_event secrets_process_event actions_ledger_update
      secrets_ledger_update actions_secret_insert secrets_secret_insert split: option.splits)

lemma run_locked_commute:
  "run_locked identity a (run_locked identity b st) = run_locked identity b (run_locked identity a st)"
proof (rule results.equality)
  show "actions (run_locked identity a (run_locked identity b st)) =
        actions (run_locked identity b (run_locked identity a st))"
    by (cases a; cases b)
      (auto simp add: actions_ledger_update actions_secret_insert fun_upd_twist
        split: option.splits)
  show "secrets (run_locked identity a (run_locked identity b st)) =
        secrets (run_locked identity b (run_locked identity a st))"
    by (cases a; cases b)
      (auto simp add: secrets_ledger_update secrets_secret_insert split: option.splits)
qed simp

lemma fold_locked_sections:
  "fold (run_locked identity) (concat (map locked_sections evs)) st
     = fold (process_event identity) evs st"
  by (induction evs arbitrary: st) (simp_all add: locked_sections_def process_event_sections)

lemma interleaving_independent:
  assumes "mset ls = mset (concat (map locked_sections evs))"
  shows "fold (run_locked identity) ls st = fold (process_event identity) evs st"
proof -
  have "fold (run_locked identity) ls = fold (run_locked identity) (concat (map locked_sections evs))"
    by (rule fold_multiset_equiv [OF _ assms]) (simp add: fun_eq_iff run_locked_commute)
  then show ?thesis by (simp add: fold_locked_sections)
qed

text \<open>
  C1. A record of a principal other than the target is dropped by the identity guard before
  the secret test is reached: it changes neither the ledger nor the secret set, also when it
  is a successful secret retrieval.
\<close>

theorem other_principal_record_ignored:
  "normalizeArn (UserIdentity_Arn ev) \<noteq> identity \<Longrightarrow> process_event identity ev st = st"
  by (simp add: process_event_def)

theorem other_principal_record_ignored_witness:
  "secret_id (get_secret_by admin_session) = Some ''prod/db''
   \<and> secrets (process_event alice (get_secret_by admin_session) no_results) = {}
   \<and> secrets (process_event alice (get_secret_by ''arn:aws:iam::123456789012:user/alice'')
        no_results) = {''prod/db''}"
proof -
  have "normalizeArn (UserIdentity_Arn (get_secret_by admin_session)) \<noteq> alice"
    by (simp add: get_secret_by_def admin_session_def alice_def normalizeArn_def)
  from other_principal_record_ignored [OF this, of no_results]
  have "secrets (process_event alice (get_secret_by admin_session) no_results) = {}"
    by (simp add: no_results_def)
  moreover have "secret_id (get_secret_by admin_session) = Some ''prod/db''"
    by (simp add: secret_id_def get_secret_by_def strings_Contains_def)
  moreover have "secrets (process_event alice
      (get_secret_by ''arn:aws:iam::123456789012:user/alice'') no_results) = {''prod/db''}"
    by (simp add: secrets_process_event passes_def secret_id_def get_secret_by_def
        alice_def no_results_def normalizeArn_def strings_Contains_def)
  ultimately show ?thesis by simp
qed

text \<open>
  C3. Two records that pass the filter and have the same ledger key, the first with the
  lexically smaller timestamp: whichever is processed first, the ledger then holds the
  larger timestamp under that key, provided it held nothing later before.
\<close>

theorem last_write_wins:
  assumes "passes identity r1" and "passes identity r2"
    and "operation_key r1 = k" and "operation_key r2 = k"
    and "EventTime r1 < EventTime r2"
    and "\<forall>p. actions st k = Some p \<longrightarrow> p \<le> EventTime r2"
  shows "actions (process_event identity r2 (process_event identity r1 st)) k = Some (EventTime r2)
       \<and> actions (process_event identity r1 (process_event identity r2 st)) k = Some (EventTime r2)"
  using assms by (auto simp add: actions_process_event split: option.splits)

theorem last_write_wins_witness:
  "actions (process_event alice (describe_at ''2024-01-15T10:30:00Z'')
             (process_event alice (describe_at ''2024-01-15T10:00:00Z'') no_results))
     ''ec2:DescribeInstances'' = Some ''2024-01-15T10:30:00Z''
   \<and> actions (process_event alice (describe_at ''2024-01-15T10:00:00Z'')
             (process_event alice (describe_at ''2024-01-15T10:30:00Z'') no_results))
     ''ec2:DescribeInstances'' = Some ''2024-01-15T10:30:00Z''"
proof -
  have t: "EventTime (describe_at ''2024-01-15T10:00:00Z'')
             < EventTime (describe_at ''2024-01-15T10:30:00Z'')"
    by (simp add: describe_at_def)
  have e: "\<forall>p. actions no_results ''ec2:DescribeInstances'' = Some p
             \<longrightarrow> p \<le> EventTime (describe_at ''2024-01-15T10:30:00Z'')"
    by (simp add: no_results_def)
  have "EventTime (describe_at ''2024-01-15T10:30:00Z'') = ''2024-01-15T10:30:00Z''"
    by (simp add: describe_at_def)
  with last_write_wins [OF sample_passes sample_passes sample_key sample_key t e]
  show ?thesis by simp
qed

text \<open>
  C4. However the records of the listed objects are ordered when they are folded into the
  results, the ledger and the secret set end as they do when the objects are processed one
  after the other in the listed order.
\<close>

theorem aggregation_order_independent:
  assumes "mset evs = mset (concat (map (object_events E bucket) keys))"
  shows "fold (process_event identity) evs (agg rs) = agg (process_jobs E bucket identity keys rs)"
  by (simp add: agg_process_jobs fold_process_concat fold_process_event_perm [OF assms])

lemma archive_events:
  "concat (map (object_events archive ''logs'') [''a'', ''b'', ''c'']) =
     [describe_at ''2024-01-15T10:00:00Z'', describe_at ''2024-01-15T10:30:00Z'']"
  by (simp add: object_events_def archive_def)

theorem aggregation_order_independent_witness:
  "fold (process_event alice)
     [describe_at ''2024-01-15T10:30:00Z'', describe_at ''2024-01-15T10:00:00Z'']
     (agg \<lparr>agg = no_results, processed = 0\<rparr>)
   = agg (process_jobs archive ''logs'' alice [''a'', ''b'', ''c'']
            \<lparr>agg = no_results, processed = 0\<rparr>)"
proof -
  have "mset [describe_at ''2024-01-15T10:30:00Z'', describe_at ''2024-01-15T10:00:00Z'']
      = mset (concat (map (object_events archive ''logs'') [''a'', ''b'', ''c'']))"
    unfolding archive_events by (simp add: add_mset_commute)
  then show ?thesis by (rule aggregation_order_independent)
qed

text \<open>
  C7. A record that carries an error code leaves the ledger as it was, whatever its
  principal and operation.
\<close>

theorem failed_record_leaves_ledger:
  "ErrorCode ev \<noteq> None \<Longrightarrow> actions (process_event identity ev st) = actions st"
  by (simp add: process_event_def)

theorem failed_record_leaves_ledger_witness:
  "passes alice (describe_at ''2024-01-15T10:00:00Z'')
   \<and> actions (process_event alice (denied_at ''2024-01-15T10:00:00Z'') no_results)
       = actions no_results"
proof -
  have "ErrorCode (denied_at ''2024-01-15T10:00:00Z'') \<noteq> None"
    by (simp add: denied_at_def)
  from failed_record_leaves_ledger [OF this] show ?thesis
    by (simp add: sample_passes)
qed

text \<open>
  C9. When fetching the object, opening its gzip stream or decoding its top-level document
  fails, \<^verbatim>\<open>process\<close> returns the results unchanged; the worker still counts the object, and
  the run over the remaining keys goes on as if the object were not in the queue.
\<close>

theorem failed_object_skipped:
  assumes "GetObject E bucket key = None
         \<or> (\<exists>body. GetObject E bucket key = Some body \<and> gzip_NewReader E body = None)
         \<or> (\<exists>body gz. GetObject E bucket key = Some body \<and> gzip_NewReader E body = Some gz
               \<and> json_Decode E gz = None)"
  shows "process E bucket key identity st = st
       \<and> worker_body E bucket identity key rs = rs\<lparr>processed := processed rs + 1\<rparr>
       \<and> agg (process_jobs E bucket identity (ks1 @ key # ks2) rs)
           = agg (process_jobs E bucket identity (ks1 @ ks2) rs)
       \<and> processed (process_jobs E bucket identity (ks1 @ key # ks2) rs)
           = processed (process_jobs E bucket identity (ks1 @ ks2) rs) + 1"
proof -
  have p: "process E bucket key identity st = st" for st
    using assms by (auto simp add: process_def)
  have "worker_body E bucket identity key rs = rs\<lparr>processed := processed rs + 1\<rparr>"
    by (simp add: worker_body_def p)
  moreover have "agg (process_jobs E bucket identity (ks1 @ key # ks2) rs)
      = agg (process_jobs E bucket identity (ks1 @ ks2) rs)"
    by (simp add: agg_process_jobs p)
  moreover have "processed (process_jobs E bucket identity (ks1 @ key # ks2) rs)
      = processed (process_jobs E bucket identity (ks1 @ ks2) rs) + 1"
    by (simp add: processed_process_jobs)
  ultimately show ?thesis using p by simp
qed

theorem failed_object_skipped_witness:
  "process archive ''logs'' ''c'' alice no_results = no_results
   \<and> agg (process_jobs archive ''logs'' alice ([''a''] @ ''c'' # [''b''])
            \<lparr>agg = no_results, processed = 0\<rparr>)
       = agg (process_jobs archive ''logs'' alice ([''a''] @ [''b''])
            \<lparr>agg = no_results, processed = 0\<rparr>)
   \<and> processed (process_jobs archive ''logs'' alice ([''a''] @ ''c'' # [''b''])
            \<lparr>agg = no_results, processed = 0\<rparr>) = 3"
proof -
  have f: "GetObject archive ''logs'' ''c'' = None
         \<or> (\<exists>body. GetObject archive ''logs'' ''c'' = Some body
               \<and> gzip_NewReader archive body = None)
         \<or> (\<exists>body gz. GetObject archive ''logs'' ''c'' = Some body
               \<and> gzip_NewReader archive body = Some gz \<and> json_Decode archive gz = None)"
    by (simp add: archive_def)
  have "processed (process_jobs archive ''logs'' alice ([''a''] @ [''b''])
            \<lparr>agg = no_results, processed = 0\<rparr>) = 2"
    by (simp add: process_jobs_def worker_body_def)
  with failed_object_skipped [OF f, of alice no_results "\<lparr>agg = no_results, processed = 0\<rparr>"
      "[''a'']" "[''b'']"]
  show ?thesis by simp
qed

text \<open>
  C10. A record without a principal identifier normalises to the empty string, and under a
  non-empty target identity it changes neither the ledger nor anything else.
\<close>

theorem empty_principal_rejected:
  "UserIdentity_Arn ev = [] \<Longrightarrow> identity \<noteq> [] \<Longrightarrow>
   normalizeArn (UserIdentity_Arn ev) = [] \<and> process_event identity ev st = st"
  by (auto simp add: process_event_def normalizeArn_Nil)

theorem empty_principal_rejected_witness:
  "normalizeArn (UserIdentity_Arn (anonymous_at ''2024-01-15T10:00:00Z'')) = []
   \<and> process_event alice (anonymous_at ''2024-01-15T10:00:00Z'') no_results = no_results"
proof -
  have a: "UserIdentity_Arn (anonymous_at ''2024-01-15T10:00:00Z'') = []"
    by (simp add: anonymous_at_def)
  have b: "alice \<noteq> []"
    by (simp add: alice_def)
  show ?thesis by (rule empty_principal_rejected [OF a b])
qed

section \<open>Properties of the listing\<close>

lemma sum_list_map_update:
  fixes f :: "'a \<Rightarrow> 'b multiset"
  shows "i < length ls \<Longrightarrow> sum_list (map f (ls[i := y])) + f (ls ! i) = sum_list (map f ls) + f y"
proof (induction ls arbitrary: i)
  case Nil
  then show ?case by simp
next
  case (Cons a ls)
  then show ?case by (cases i) (auto simp add: add.assoc)
qed

lemma lister_step_invariant:
  "mset (allKeys (lister_step i s)) + sum_list (map pending (listers (lister_step i s)))
     = mset (allKeys s) + sum_list (map pending (listers s))"
proof (cases "i < length (listers s)")
  case False
  then show ?thesis by (simp add: lister_step_def)
next
  case True
  show ?thesis
  proof (cases "listers s ! i")
    case Finished
    then show ?thesis using True by (simp add: lister_step_def)
  next
    case (Listing ps)
    have upd: "sum_list (map pending ((listers s)[i := y])) + mset (collected ps)
                = sum_list (map pending (listers s)) + pending y" for y
      using sum_list_map_update [OF True, of pending y] Listing by simp
    show ?thesis
    proof (cases ps)
      case Nil
      then show ?thesis using True Listing upd [of Finished] by (simp add: lister_step_def)
    next
      case (Cons pg rest)
      show ?thesis
      proof (cases pg)
        case None
        then show ?thesis using True Listing Cons upd [of Finished] by (simp add: lister_step_def)
      next
        case (Some contents)
        then show ?thesis using True Listing Cons upd [of "Listing rest"]
          by (simp add: lister_step_def) (metis (no_types, lifting) add.commute)
      qed
    qed
  qed
qed

lemma fold_lister_step_invariant:
  "mset (allKeys (fold lister_step sched s)) + sum_list (map pending (listers (fold lister_step sched s)))
     = mset (allKeys s) + sum_list (map pending (listers s))"
  by (induction sched arbitrary: s) (simp_all add: lister_step_invariant)

lemma pending_all_finished:
  "\<forall>l\<in>set ls. l = Finished \<Longrightarrow> sum_list (map pending ls) = {#}"
  by (induction ls) auto

lemma run_listing_complete:
  assumes "\<forall>l\<in>set (listers (list_shards pages_of prefs sched)). l = Finished"
  shows "mset (allKeys (list_shards pages_of prefs sched))
           = sum_list (map (\<lambda>pref. mset (collected (pages_of pref))) prefs)"
proof -
  let ?s0 = "\<lparr>listers = map (\<lambda>pref. Listing (pages_of pref)) prefs, allKeys = [], shardCount = 0\<rparr>"
  have "mset (allKeys (list_shards pages_of prefs sched))
          + sum_list (map pending (listers (list_shards pages_of prefs sched)))
        = mset (allKeys ?s0) + sum_list (map pending (listers ?s0))"
    unfolding list_shards_def by (rule fold_lister_step_invariant)
  moreover have "sum_list (map pending (listers (list_shards pages_of prefs sched))) = {#}"
    by (rule pending_all_finished [OF assms])
  ultimately show ?thesis by (simp add: comp_def)
qed

lemma collected_error_free: "None \<notin> set ps \<Longrightarrow> collected ps = concat (map the ps)"
  by (induction ps rule: collected.induct) auto

lemma run_listing_keeps_error_free_shards:
  assumes "\<forall>l\<in>set (listers (list_shards pages_of prefs sched)). l = Finished"
    and "pref \<in> set prefs"
  shows "set (collected (pages_of pref)) \<subseteq> set (allKeys (list_shards pages_of prefs sched))"
proof -
  have "set (allKeys (list_shards pages_of prefs sched))
          = set_mset (sum_list (map (\<lambda>pref. mset (collected (pages_of pref))) prefs))"
    using run_listing_complete [OF assms(1)] by (metis set_mset_mset)
  also have "\<dots> = (\<Union>p\<in>set prefs. set (collected (pages_of p)))"
    by simp
  finally show ?thesis using assms(2) by blast
qed

lemma pool_step_starved: "s \<in> starved \<Longrightarrow> pool_step flaky_pages i s \<in> starved"
  by (cases i) (auto simp add: starved_def pool_step_def flaky_pages_def)

lemma fold_pool_step_starved:
  "s \<in> starved \<Longrightarrow> fold (pool_step flaky_pages) sched s \<in> starved"
  by (induction sched arbitrary: s) (simp_all add: pool_step_starved)

lemma pool_never_lists_second_shard:
  "all_keys (pool_run flaky_pages [''logs/a/'', ''logs/b/''] 1 sched) = []"
proof -
  have "pool_run flaky_pages [''logs/a/'', ''logs/b/''] 1 sched \<in> starved"
    unfolding pool_run_def by (rule fold_pool_step_starved) (simp add: starved_def)
  then show ?thesis by (auto simp add: starved_def)
qed

text \<open>
  C8. In \<^verbatim>\<open>listKeysParallel\<close> with one worker, an error on the first shard makes the
  worker return: the second shard stays in the queue and its key is never listed, although
  listing it would not fail.
\<close>

theorem worker_exit_starves_queue:
  "listKeysParallel (Some [''logs/a/'', ''logs/b/'']) flaky_pages ''logs/'' 1 [0, 0] = Inr []
   \<and> workers (pool_run flaky_pages [''logs/a/'', ''logs/b/''] 1 [0, 0]) = [Exited]
   \<and> jobs (pool_run flaky_pages [''logs/a/'', ''logs/b/''] 1 [0, 0]) = [''logs/b/'']
   \<and> collected (flaky_pages ''logs/b/'') = [''logs/b/1.json.gz'']"
  by (simp add: listKeysParallel_def pool_run_def pool_step_def flaky_pages_def)

lemma run_lists_second_shard:
  "allKeys (list_shards flaky_pages [''logs/a/'', ''logs/b/''] [0, 1, 1]) = [''logs/b/1.json.gz'']
   \<and> listers (list_shards flaky_pages [''logs/a/'', ''logs/b/''] [0, 1, 1]) = [Finished, Finished]"
  by (simp add: list_shards_def lister_step_def flaky_pages_def)

end
